theory Spec2Isabelle
  imports Complex_Main "HOL-Library.Multiset"
begin

section \<open>The bounded producer-consumer queue\<close>

text \<open>
  \<^verbatim>\<open>ProducerConsumerQueue<T>\<close> holds a \<^verbatim>\<open>std::queue<T> q_\<close> and a \<^verbatim>\<open>size_t max_size_\<close>.
  The queue is a list with its front at the head; \<^verbatim>\<open>max_size_\<close> is only ever compared
  with \<^verbatim>\<open>q_.size()\<close>, never computed with, so it is a natural number. The fields are
  written \<open>q\<close> and \<open>max_size\<close>, without the trailing underscore of the source.
  The mutex and the two condition variables carry no data of their own: every access to
  \<^verbatim>\<open>q_\<close> happens with \<^verbatim>\<open>mtx_\<close> held, so each call of \<^verbatim>\<open>push\<close> or \<^verbatim>\<open>pop\<close> acts on the
  state in one indivisible step, taken at the moment its wait predicate is found true.
\<close>

record 'a pc_queue =
  q :: "'a list"
  max_size :: nat

text \<open>
  A call whose wait predicate is false sleeps inside \<^verbatim>\<open>condition_variable::wait\<close> with
  the lock released and the state untouched; it re-evaluates the predicate when woken.
  \<open>Waits\<close> is that outcome, \<open>Completes r\<close> the outcome of the call going through.
\<close>

datatype 'r attempt = Waits | Completes 'r

definition ProducerConsumerQueue :: "nat \<Rightarrow> 'a pc_queue" where
  "ProducerConsumerQueue n = \<lparr>q = [], max_size = n\<rparr>"

text \<open>
  \<^verbatim>\<open>push\<close>: wait for \<^verbatim>\<open>q_.size() < max_size_\<close>, then \<^verbatim>\<open>q_.push(item)\<close>.
  (The line written to \<^verbatim>\<open>std::cout\<close> and the notification are not part of the state.)
\<close>

definition push :: "'a \<Rightarrow> 'a pc_queue \<Rightarrow> 'a pc_queue attempt" where
  "push item s =
     (if length (q s) < max_size s
      then Completes (s\<lparr>q := q s @ [item]\<rparr>)
      else Waits)"

text \<open>
  \<^verbatim>\<open>pop\<close>: wait for \<^verbatim>\<open>!q_.empty()\<close>, then take \<^verbatim>\<open>q_.front()\<close> and \<^verbatim>\<open>q_.pop()\<close>.
\<close>

definition pop :: "'a pc_queue \<Rightarrow> ('a \<times> 'a pc_queue) attempt" where
  "pop s =
     (if q s \<noteq> []
      then Completes (hd (q s), s\<lparr>q := tl (q s)\<rparr>)
      else Waits)"

text \<open>
  A history of the queue is the sequence of calls in the order in which they went
  through. \<open>q_run\<close> replays a history and collects what the pops returned; it is
  \<open>Waits\<close> when some call of the history cannot go through at its place.
\<close>

datatype 'a q_event = Push 'a | Pop

fun q_run :: "'a q_event list \<Rightarrow> 'a pc_queue \<Rightarrow> ('a list \<times> 'a pc_queue) attempt" where
  "q_run [] s = Completes ([], s)"
| "q_run (Push x # es) s =
     (case push x s of
        Waits \<Rightarrow> Waits
      | Completes s' \<Rightarrow> q_run es s')"
| "q_run (Pop # es) s =
     (case pop s of
        Waits \<Rightarrow> Waits
      | Completes (y, s') \<Rightarrow>
          (case q_run es s' of
             Waits \<Rightarrow> Waits
           | Completes (ys, s'') \<Rightarrow> Completes (y # ys, s'')))"

section \<open>The thread pool\<close>

text \<open>
  \<^verbatim>\<open>ThreadPool\<close> holds the worker threads, the queue \<^verbatim>\<open>tasks\<close> of callables and the
  flag \<^verbatim>\<open>stop\<close>; \<^verbatim>\<open>tasks\<close> and \<^verbatim>\<open>stop\<close> are only read and written with
  \<^verbatim>\<open>queue_mutex\<close> held. A worker thread is represented by the place it has reached in
  its loop: \<open>Waiting\<close> at the top of the loop (before or inside \<^verbatim>\<open>condition.wait\<close>),
  \<open>Running t\<close> while it calls the task \<open>t\<close> it took, with the lock released, and
  \<open>Exited\<close> after the \<^verbatim>\<open>return\<close> of its lambda. Every change that can make a wait
  predicate true is followed by a notification (\<^verbatim>\<open>notify_one\<close> after \<^verbatim>\<open>emplace\<close>,
  \<^verbatim>\<open>notify_all\<close> after \<^verbatim>\<open>stop = true\<close>), and \<^verbatim>\<open>wait\<close> tests its predicate before
  sleeping: a thread whose predicate is true is a thread that can take its step.
\<close>

datatype 't worker = Waiting | Running 't | Exited

text \<open>
  The thread that destroys the pool is represented by its place in \<^verbatim>\<open>~ThreadPool\<close>:
  not yet called, inside the loop of joins with the index of the next worker to join,
  or returned.
\<close>

datatype destructor = Not_called | Joining nat | Returned

text \<open>
  The field \<open>executed\<close> is not a variable of the program: it records, in order, the tasks
  whose call has returned, which is what an observer of the tasks' effects sees.
\<close>

record 't thread_pool =
  workers :: "'t worker list"
  tasks :: "'t list"
  stop :: bool
  dtor :: destructor
  executed :: "'t list"

datatype error = Runtime_error string

text \<open>
  The constructor sets \<^verbatim>\<open>stop(false)\<close> and starts \<^verbatim>\<open>num_threads\<close> threads, each at the
  top of its loop.
\<close>

definition ThreadPool :: "nat \<Rightarrow> 't thread_pool" where
  "ThreadPool num_threads =
     \<lparr>workers = replicate num_threads Waiting, tasks = [], stop = False,
      dtor = Not_called, executed = []\<rparr>"

text \<open>
  \<^verbatim>\<open>enqueue\<close>: under the lock, throw \<^verbatim>\<open>std::runtime_error\<close> if \<^verbatim>\<open>stop\<close> is set,
  otherwise \<^verbatim>\<open>tasks.emplace(f)\<close>. There is no wait in it.
\<close>

definition enqueue :: "'t \<Rightarrow> 't thread_pool \<Rightarrow> error + 't thread_pool" where
  "enqueue f s =
     (if stop s then Inl (Runtime_error ''enqueue on stopped ThreadPool'')
      else Inr (s\<lparr>tasks := tasks s @ [f]\<rparr>))"

text \<open>
  The locked block of the worker loop: wait for \<^verbatim>\<open>stop || !tasks.empty()\<close>; leave the
  loop if \<^verbatim>\<open>stop && tasks.empty()\<close>; otherwise take \<^verbatim>\<open>tasks.front()\<close> and
  \<^verbatim>\<open>tasks.pop()\<close>.
\<close>

datatype 't fetch = Sleeps | Leaves | Takes 't "'t thread_pool"

definition worker_fetch :: "'t thread_pool \<Rightarrow> 't fetch" where
  "worker_fetch s =
     (if \<not> (stop s \<or> tasks s \<noteq> []) then Sleeps
      else if stop s \<and> tasks s = [] then Leaves
      else Takes (hd (tasks s)) (s\<lparr>tasks := tl (tasks s)\<rparr>))"

text \<open>The locked block of the destructor: \<^verbatim>\<open>stop = true\<close>.\<close>

definition set_stop :: "'t thread_pool \<Rightarrow> 't thread_pool" where
  "set_stop s = s\<lparr>stop := True\<rparr>"

text \<open>
  The steps of the threads. A worker's call \<^verbatim>\<open>task()\<close> either returns or throws; the
  lambda has no handler, so an exception leaves the entry function of the
  \<^verbatim>\<open>std::thread\<close> and \<^verbatim>\<open>std::terminate\<close> is called. \<^verbatim>\<open>worker.join()\<close> goes
  through only when that worker has exited. An \<^verbatim>\<open>enqueue\<close> that throws hands the
  exception to its caller and leaves the pool as it was.
\<close>

datatype 't event =
    Enqueue 't
  | Worker_fetch nat
  | Task_returns nat
  | Task_throws nat
  | Dtor_stop
  | Dtor_join
  | Dtor_return

text \<open>
  \<open>Disabled\<close>: the thread is not at that place, or it is blocked there (wait predicate
  false, joined thread still running). \<open>Terminate\<close>: \<^verbatim>\<open>std::terminate\<close> has been
  called.
\<close>

datatype 'r result = Next 'r | Disabled | Terminate

fun step :: "'t event \<Rightarrow> 't thread_pool \<Rightarrow> 't thread_pool result" where
  "step (Enqueue f) s =
     (case enqueue f s of
        Inl e \<Rightarrow> Next s
      | Inr s' \<Rightarrow> Next s')"
| "step (Worker_fetch i) s =
     (if i < length (workers s) \<and> workers s ! i = Waiting then
        (case worker_fetch s of
           Sleeps \<Rightarrow> Disabled
         | Leaves \<Rightarrow> Next (s\<lparr>workers := (workers s)[i := Exited]\<rparr>)
         | Takes t s' \<Rightarrow> Next (s'\<lparr>workers := (workers s')[i := Running t]\<rparr>))
      else Disabled)"
| "step (Task_returns i) s =
     (if i < length (workers s) then
        (case workers s ! i of
           Running t \<Rightarrow>
             Next (s\<lparr>workers := (workers s)[i := Waiting], executed := executed s @ [t]\<rparr>)
         | _ \<Rightarrow> Disabled)
      else Disabled)"
| "step (Task_throws i) s =
     (if i < length (workers s) then
        (case workers s ! i of
           Running t \<Rightarrow> Terminate
         | _ \<Rightarrow> Disabled)
      else Disabled)"
| "step Dtor_stop s =
     (if dtor s = Not_called then Next ((set_stop s)\<lparr>dtor := Joining 0\<rparr>) else Disabled)"
| "step Dtor_join s =
     (case dtor s of
        Joining k \<Rightarrow>
          (if k < length (workers s) \<and> workers s ! k = Exited
           then Next (s\<lparr>dtor := Joining (Suc k)\<rparr>) else Disabled)
      | _ \<Rightarrow> Disabled)"
| "step Dtor_return s =
     (case dtor s of
        Joining k \<Rightarrow>
          (if k = length (workers s) then Next (s\<lparr>dtor := Returned\<rparr>) else Disabled)
      | _ \<Rightarrow> Disabled)"

text \<open>
  \<open>run\<close> follows a history of the pool up to the first call of \<^verbatim>\<open>std::terminate\<close> and
  stops there. What the threads still do between that call and the end of the process
  is the subject of \<open>p_run\<close> below.
\<close>

fun run :: "'t event list \<Rightarrow> 't thread_pool \<Rightarrow> 't thread_pool result" where
  "run [] s = Next s"
| "run (e # es) s =
     (case step e s of
        Next s' \<Rightarrow> run es s'
      | Disabled \<Rightarrow> Disabled
      | Terminate \<Rightarrow> Terminate)"

text \<open>\<open>fetch_n n\<close>: \<open>n\<close> successive passes through the worker's locked block that each take a task.\<close>

fun fetch_n :: "nat \<Rightarrow> 't thread_pool \<Rightarrow> ('t list \<times> 't thread_pool) option" where
  "fetch_n 0 s = Some ([], s)"
| "fetch_n (Suc n) s =
     (case worker_fetch s of
        Takes t s' \<Rightarrow>
          (case fetch_n n s' of
             Some (ts, s'') \<Rightarrow> Some (t # ts, s'')
           | None \<Rightarrow> None)
      | _ \<Rightarrow> None)"

text \<open>The tasks being run, the tasks submitted by a history, and the events of the workers.\<close>

fun running_task :: "'t worker \<Rightarrow> 't list" where
  "running_task (Running t) = [t]"
| "running_task _ = []"

definition running :: "'t thread_pool \<Rightarrow> 't list" where
  "running s = concat (map running_task (workers s))"

fun enqueued :: "'t event list \<Rightarrow> 't list" where
  "enqueued [] = []"
| "enqueued (Enqueue f # es) = f # enqueued es"
| "enqueued (_ # es) = enqueued es"

fun is_worker_event :: "'t event \<Rightarrow> bool" where
  "is_worker_event (Worker_fetch i) = True"
| "is_worker_event (Task_returns i) = True"
| "is_worker_event _ = False"

text \<open>
  The work left to the workers: three units for a queued task (take it, run it, come
  back), two for a task being run, one for a worker that has not yet left its loop.
\<close>

fun weight :: "'t worker \<Rightarrow> nat" where
  "weight Waiting = 1"
| "weight (Running t) = 2"
| "weight Exited = 0"

definition pending :: "'t thread_pool \<Rightarrow> nat" where
  "pending s = 3 * length (tasks s) + sum_list (map weight (workers s))"

definition all_exited :: "'t thread_pool \<Rightarrow> bool" where
  "all_exited s = list_all (\<lambda>w. w = Exited) (workers s)"

text \<open>
  After a throw. \<^verbatim>\<open>std::terminate\<close> does not return: the worker on which it was called
  never comes back to its loop, and its task stays the one it was running. The default
  handler calls \<^verbatim>\<open>abort\<close>, which ends the process; until it has, nothing in the pool
  stops the other threads, which go on taking their steps. A process is the pool
  together with the workers on which \<^verbatim>\<open>std::terminate\<close> has been called.
\<close>

record 't process =
  pool :: "'t thread_pool"
  faulted :: "nat list"

definition start :: "'t thread_pool \<Rightarrow> 't process" where
  "start s = \<lparr>pool = s, faulted = []\<rparr>"

text \<open>The worker that takes a step, for the steps of workers.\<close>

fun worker_of :: "'t event \<Rightarrow> nat option" where
  "worker_of (Worker_fetch i) = Some i"
| "worker_of (Task_returns i) = Some i"
| "worker_of (Task_throws i) = Some i"
| "worker_of _ = None"

text \<open>
  The steps of the process: a step of a thread, or \<open>Abort\<close>, the end of the process,
  which can happen once \<^verbatim>\<open>std::terminate\<close> has been called. A worker inside
  \<^verbatim>\<open>std::terminate\<close> takes no step; where \<open>step\<close> says that \<^verbatim>\<open>std::terminate\<close> is called,
  the worker is recorded and the pool is left as it is. In the result of \<open>p_step\<close> and
  \<open>p_run\<close>, \<open>Terminate\<close> is the process ended.
\<close>

datatype 't p_event = Thread "'t event" | Abort

fun p_step :: "'t p_event \<Rightarrow> 't process \<Rightarrow> 't process result" where
  "p_step Abort p = (if faulted p = [] then Disabled else Terminate)"
| "p_step (Thread e) p =
     (if (case worker_of e of Some i \<Rightarrow> i \<in> set (faulted p) | None \<Rightarrow> False) then Disabled
      else
        (case step e (pool p) of
           Next s' \<Rightarrow> Next (p\<lparr>pool := s'\<rparr>)
         | Disabled \<Rightarrow> Disabled
         | Terminate \<Rightarrow>
             (case worker_of e of
                Some i \<Rightarrow> Next (p\<lparr>faulted := i # faulted p\<rparr>)
              | None \<Rightarrow> Disabled)))"

fun p_run :: "'t p_event list \<Rightarrow> 't process \<Rightarrow> 't process result" where
  "p_run [] p = Next p"
| "p_run (e # es) p =
     (case p_step e p of
        Next p' \<Rightarrow> p_run es p'
      | Disabled \<Rightarrow> Disabled
      | Terminate \<Rightarrow> Terminate)"

text \<open>
  \<open>serve i n\<close>: worker \<open>i\<close> goes \<open>n\<close> times round its loop, each time taking a task and
  returning from it.
\<close>

definition serve :: "nat \<Rightarrow> nat \<Rightarrow> 't p_event list" where
  "serve i n = concat (replicate n [Thread (Worker_fetch i), Thread (Task_returns i)])"

text \<open>The tasks the pool holds: executed, being run, or queued.\<close>

definition held :: "'t thread_pool \<Rightarrow> 't multiset" where
  "held s = mset (executed s) + mset (running s) + mset (tasks s)"

text \<open>
  What holds of every state of a pool: \<^verbatim>\<open>stop\<close> is set exactly when the destructor has
  been called; the workers already joined have exited; and a worker has exited only if
  \<^verbatim>\<open>stop\<close> is set and the queue is empty.
\<close>

definition pool_inv :: "'t thread_pool \<Rightarrow> bool" where
  "pool_inv s =
     (((dtor s = Not_called) = (\<not> stop s)) \<and>
      (\<forall>k. dtor s = Joining k \<longrightarrow>
         k \<le> length (workers s) \<and> (\<forall>j<k. workers s ! j = Exited)) \<and>
      (dtor s = Returned \<longrightarrow> (\<forall>j<length (workers s). workers s ! j = Exited)) \<and>
      ((\<exists>j<length (workers s). workers s ! j = Exited) \<longrightarrow> stop s \<and> tasks s = []))"

section \<open>The Mandelbrot iteration count\<close>

text \<open>
  \<^verbatim>\<open>mandelbrotIterations\<close> works on \<^verbatim>\<open>std::complex<double>\<close>. Its arithmetic enters the
  loop in two places only, \<^verbatim>\<open>std::pow(z, 2) + c\<close> and \<^verbatim>\<open>std::abs(z) > 2.0\<close>; both are
  parameters here (\<open>sq_add\<close>, \<open>escapes\<close>), with the initial value \<open>z0\<close> of \<open>z\<close>, so that
  what is proved of the loop holds for the floating-point operations whatever they
  return. The counter \<open>i\<close> stays between 0 and \<^verbatim>\<open>MAX_ITERATIONS\<close>, far from the limits of
  \<^verbatim>\<open>int\<close>.
\<close>

definition MAX_ITERATIONS :: int where
  "MAX_ITERATIONS = 100"

function mandelbrot_loop ::
  "('z \<Rightarrow> 'z \<Rightarrow> 'z) \<Rightarrow> ('z \<Rightarrow> bool) \<Rightarrow> 'z \<Rightarrow> 'z \<Rightarrow> int \<Rightarrow> int" where
  "mandelbrot_loop sq_add escapes c z i =
     (if i < MAX_ITERATIONS then
        (let z' = sq_add z c in
         if escapes z' then i
         else mandelbrot_loop sq_add escapes c z' (i + 1))
      else MAX_ITERATIONS)"
  by pat_completeness auto
termination
  by (relation "measure (\<lambda>(sq_add, escapes, c, z, i). nat (MAX_ITERATIONS - i))") auto

definition mandelbrotIterations ::
  "('z \<Rightarrow> 'z \<Rightarrow> 'z) \<Rightarrow> ('z \<Rightarrow> bool) \<Rightarrow> 'z \<Rightarrow> 'z \<Rightarrow> int" where
  "mandelbrotIterations sq_add escapes z0 c = mandelbrot_loop sq_add escapes c z0 0"

text \<open>The number of times the loop body runs, counted along the same recursion.\<close>

function loop_passes ::
  "('z \<Rightarrow> 'z \<Rightarrow> 'z) \<Rightarrow> ('z \<Rightarrow> bool) \<Rightarrow> 'z \<Rightarrow> 'z \<Rightarrow> int \<Rightarrow> nat" where
  "loop_passes sq_add escapes c z i =
     (if i < MAX_ITERATIONS then
        (let z' = sq_add z c in
         if escapes z' then 1
         else 1 + loop_passes sq_add escapes c z' (i + 1))
      else 0)"
  by pat_completeness auto
termination
  by (relation "measure (\<lambda>(sq_add, escapes, c, z, i). nat (MAX_ITERATIONS - i))") auto

text \<open>The value of \<open>z\<close> after \<open>k\<close> passes.\<close>

definition iterate :: "('z \<Rightarrow> 'z \<Rightarrow> 'z) \<Rightarrow> 'z \<Rightarrow> 'z \<Rightarrow> nat \<Rightarrow> 'z" where
  "iterate sq_add z0 c k = ((\<lambda>z. sq_add z c) ^^ k) z0"

text \<open>The operations on exact complex numbers: \<open>z\<^sup>2 + c\<close> and \<open>|z| > 2\<close>.\<close>

definition exact_sq_add :: "complex \<Rightarrow> complex \<Rightarrow> complex" where
  "exact_sq_add z c = z ^ 2 + c"

definition exact_escapes :: "complex \<Rightarrow> bool" where
  "exact_escapes z = (cmod z > 2)"

section \<open>Properties of the queue\<close>

lemma push_max_size: "push x s = Completes s' \<Longrightarrow> max_size s' = max_size s"
  by (auto simp: push_def split: if_splits)

lemma pop_max_size: "pop s = Completes (y, s') \<Longrightarrow> max_size s' = max_size s"
  by (auto simp: pop_def split: if_splits)

lemma push_bounded:
  "push x s = Completes s' \<Longrightarrow> length (q s') \<le> max_size s'"
  by (auto simp: push_def split: if_splits)

lemma pop_bounded:
  "pop s = Completes (y, s') \<Longrightarrow> length (q s) \<le> max_size s \<Longrightarrow>
   length (q s') \<le> max_size s'"
  by (auto simp: pop_def split: if_splits)

lemma q_run_bounded:
  "q_run es s = Completes (ys, s') \<Longrightarrow> length (q s) \<le> max_size s \<Longrightarrow>
   length (q s') \<le> max_size s' \<and> max_size s' = max_size s"
proof (induction es s arbitrary: ys s' rule: q_run.induct)
  case (1 s)
  then show ?case by simp
next
  case (2 x es s)
  from "2.prems"(1) obtain s1 where p: "push x s = Completes s1"
    and r: "q_run es s1 = Completes (ys, s')"
    by (auto split: attempt.splits)
  from "2.IH" [OF p r] push_bounded [OF p] push_max_size [OF p]
  show ?case by simp
next
  case (3 es s)
  from "3.prems"(1) obtain y s1 zs where p: "pop s = Completes (y, s1)"
    and r: "q_run es s1 = Completes (zs, s')"
    by (auto split: attempt.splits prod.splits)
  from "3.IH" [OF p refl r] pop_bounded [OF p "3.prems"(2)] pop_max_size [OF p]
  show ?case by simp
qed

lemma q_run_full_no_pop:
  "q_run es s = Completes (ys, s') \<Longrightarrow> length (q s) = max_size s \<Longrightarrow>
   Pop \<notin> set es \<Longrightarrow> s' = s"
proof (cases es)
  case Nil
  then show "q_run es s = Completes (ys, s') \<Longrightarrow> s' = s" by simp
next
  case (Cons e es')
  then show "q_run es s = Completes (ys, s') \<Longrightarrow> length (q s) = max_size s \<Longrightarrow>
    Pop \<notin> set es \<Longrightarrow> s' = s"
    by (cases e) (auto simp: push_def)
qed

text \<open>
  Claim C1. A queue built with capacity \<open>C > 0\<close> never holds more than \<open>C\<close> items: after
  every history that went through, the length is at most \<open>C\<close>. A push on a queue of
  length \<open>C\<close> waits; it still waits after any further history without a pop; and once a
  pop has gone through, it completes.
\<close>

theorem capacity_invariant:
  assumes "0 < C"
    and "q_run es (ProducerConsumerQueue C) = Completes (ys, s)"
  shows "length (q s) \<le> C \<and> max_size s = C \<and>
     (length (q s) = C \<longrightarrow>
        push x s = Waits \<and>
        (\<forall>es' zs s'. Pop \<notin> set es' \<and> q_run es' s = Completes (zs, s')
            \<longrightarrow> push x s' = Waits) \<and>
        (\<exists>y s1 s2. pop s = Completes (y, s1) \<and> push x s1 = Completes s2
            \<and> q s2 = tl (q s) @ [x]))"
proof -
  have b: "length (q s) \<le> max_size s \<and> max_size s = C"
    using q_run_bounded [OF assms(2)] by (simp add: ProducerConsumerQueue_def)
  then have m: "max_size s = C" by simp
  have w: "push x s = Waits" if "length (q s) = C"
    using that m by (simp add: push_def)
  have n: "push x s' = Waits"
    if "length (q s) = C" "Pop \<notin> set es'" "q_run es' s = Completes (zs, s')"
    for es' zs s'
  proof -
    have "s' = s"
      using q_run_full_no_pop [OF that(3) _ that(2)] that(1) m by simp
    then show ?thesis using w [OF that(1)] by simp
  qed
  have p: "\<exists>y s1 s2. pop s = Completes (y, s1) \<and> push x s1 = Completes s2
            \<and> q s2 = tl (q s) @ [x]"
    if "length (q s) = C"
  proof -
    from that assms(1) have "q s \<noteq> []" by auto
    then show ?thesis
      using that m by (auto simp: pop_def push_def)
  qed
  from b w n p show ?thesis by blast
qed

theorem capacity_invariant_witness:
  "(0::nat) < 2 \<and>
   q_run [Push 1, Push 2] (ProducerConsumerQueue 2)
     = Completes ([], \<lparr>q = [1, 2 :: int], max_size = 2\<rparr>) \<and>
   length (q \<lparr>q = [1, 2 :: int], max_size = 2\<rparr>) \<le> 2 \<and>
   push 3 \<lparr>q = [1, 2 :: int], max_size = 2\<rparr> = Waits \<and>
   pop \<lparr>q = [1, 2 :: int], max_size = 2\<rparr> = Completes (1, \<lparr>q = [2], max_size = 2\<rparr>) \<and>
   push 3 \<lparr>q = [2 :: int], max_size = 2\<rparr> = Completes \<lparr>q = [2, 3], max_size = 2\<rparr>"
proof -
  have r: "q_run [Push 1, Push 2] (ProducerConsumerQueue 2)
     = Completes ([], \<lparr>q = [1, 2 :: int], max_size = 2\<rparr>)"
    by (simp add: ProducerConsumerQueue_def push_def)
  have z: "(0::nat) < 2" by simp
  from capacity_invariant [OF z r, of 3]
  have "length (q \<lparr>q = [1, 2 :: int], max_size = 2\<rparr>) \<le> 2 \<and>
      push 3 \<lparr>q = [1, 2 :: int], max_size = 2\<rparr> = Waits"
    by simp
  with r z show ?thesis by (simp add: pop_def push_def)
qed

lemma q_run_pushes:
  "q_run (map Push ps) s = Completes (ys, s') \<Longrightarrow> ys = [] \<and> s' = s\<lparr>q := q s @ ps\<rparr>"
proof (induction ps arbitrary: s)
  case Nil
  then show ?case by simp
next
  case (Cons p ps)
  from Cons.prems obtain s1 where p: "push p s = Completes s1"
    and r: "q_run (map Push ps) s1 = Completes (ys, s')"
    by (auto split: attempt.splits)
  from p have "s1 = s\<lparr>q := q s @ [p]\<rparr>"
    by (auto simp: push_def split: if_splits)
  with Cons.IH [OF r] show ?case by simp
qed

lemma q_run_pushes_fit:
  "length (q s) + length ps \<le> max_size s \<Longrightarrow>
   q_run (map Push ps) s = Completes ([], s\<lparr>q := q s @ ps\<rparr>)"
  by (induction ps arbitrary: s) (auto simp: push_def)

lemma q_run_pops:
  "q s = xs \<Longrightarrow> q_run (replicate (length xs) Pop) s = Completes (xs, s\<lparr>q := []\<rparr>)"
  by (induction xs arbitrary: s) (auto simp: pop_def)

text \<open>
  Claim C2. When the pushes \<open>P1..Pn\<close> have all gone through on an empty queue with no pop
  in between, the next \<open>n\<close> pops go through and return \<open>P1..Pn\<close> in that order, leaving
  the queue empty again.
\<close>

theorem fifo_order:
  assumes "q s0 = []"
    and "q_run (map Push ps) s0 = Completes (ys, s)"
  shows "q s = ps \<and> q_run (replicate (length ps) Pop) s = Completes (ps, s0)"
proof -
  from q_run_pushes [OF assms(2)] assms(1) have s: "s = s0\<lparr>q := ps\<rparr>"
    by simp
  then have c: "q s = ps" by simp
  have "s\<lparr>q := []\<rparr> = s0" using s assms(1) by simp
  with q_run_pops [OF c] c show ?thesis by simp
qed

theorem fifo_order_witness:
  "q (ProducerConsumerQueue 5 :: int pc_queue) = [] \<and>
   q_run (map Push [10, 20, 30]) (ProducerConsumerQueue 5)
     = Completes ([], \<lparr>q = [10, 20, 30 :: int], max_size = 5\<rparr>) \<and>
   q_run (replicate (length [10, 20, 30 :: int]) Pop) \<lparr>q = [10, 20, 30 :: int], max_size = 5\<rparr>
     = Completes ([10, 20, 30], ProducerConsumerQueue 5)"
proof -
  have e: "q (ProducerConsumerQueue 5 :: int pc_queue) = []"
    by (simp add: ProducerConsumerQueue_def)
  have r: "q_run (map Push [10, 20, 30]) (ProducerConsumerQueue 5)
     = Completes ([], \<lparr>q = [10, 20, 30 :: int], max_size = 5\<rparr>)"
    by (simp add: ProducerConsumerQueue_def push_def)
  from fifo_order [OF e r] e r show ?thesis by simp
qed

text \<open>
  Claim C6, as stated: a queue constructed with capacity 0 is unbounded, and push always
  stores the item. On the code, the first push on such a queue already waits.
\<close>

theorem zero_capacity_counterexample:
  "push (1 :: int) (ProducerConsumerQueue 0) = Waits"
  by (simp add: push_def ProducerConsumerQueue_def)

text \<open>
  Claim C6, amended. \<^verbatim>\<open>max_size_\<close> has no special value: with capacity 0 the wait
  predicate \<^verbatim>\<open>q_.size() < max_size_\<close> is never true, so the only history that goes
  through is the empty one, the queue stays empty, and every push waits.
\<close>

theorem zero_capacity_push_waits:
  assumes "q_run es (ProducerConsumerQueue 0) = Completes (ys, s)"
  shows "es = [] \<and> s = ProducerConsumerQueue 0 \<and> push x s = Waits"
proof (cases es)
  case Nil
  with assms show ?thesis
    by (auto simp: push_def ProducerConsumerQueue_def)
next
  case (Cons e es')
  with assms show ?thesis
    by (cases e) (auto simp: push_def pop_def ProducerConsumerQueue_def)
qed

theorem zero_capacity_push_waits_witness:
  "q_run [] (ProducerConsumerQueue 0 :: string pc_queue)
     = Completes ([], ProducerConsumerQueue 0) \<and>
   push ''item'' (ProducerConsumerQueue 0) = Waits"
proof -
  have r: "q_run [] (ProducerConsumerQueue 0 :: string pc_queue)
     = Completes ([], ProducerConsumerQueue 0)"
    by simp
  from zero_capacity_push_waits [OF r, of "''item''"] r show ?thesis by simp
qed

text \<open>
  Claim C9. On a queue of capacity 2 starting empty, push(1) and push(2) go through at
  once; push(3) then waits; a pop returns 1, after which push(3) goes through; the
  queue then holds 2 and 3, which two further pops return. The three pops of the
  scenario return 1, 2, 3 in that order and leave the queue empty.
\<close>

theorem scenario_capacity_two:
  "push 1 (ProducerConsumerQueue 2) = Completes \<lparr>q = [1 :: int], max_size = 2\<rparr> \<and>
   push 2 \<lparr>q = [1 :: int], max_size = 2\<rparr> = Completes \<lparr>q = [1, 2], max_size = 2\<rparr> \<and>
   push 3 \<lparr>q = [1, 2 :: int], max_size = 2\<rparr> = Waits \<and>
   pop \<lparr>q = [1, 2 :: int], max_size = 2\<rparr> = Completes (1, \<lparr>q = [2], max_size = 2\<rparr>) \<and>
   push 3 \<lparr>q = [2 :: int], max_size = 2\<rparr> = Completes \<lparr>q = [2, 3], max_size = 2\<rparr> \<and>
   q_run [Pop, Pop] \<lparr>q = [2, 3 :: int], max_size = 2\<rparr>
     = Completes ([2, 3], ProducerConsumerQueue 2) \<and>
   q_run [Push 1, Push 2, Pop, Push 3, Pop, Pop] (ProducerConsumerQueue 2)
     = Completes ([1, 2, 3 :: int], ProducerConsumerQueue 2)"
  by (simp add: ProducerConsumerQueue_def push_def pop_def)

section \<open>Properties of the thread pool\<close>

lemma step_stop_mono: "step e s = Next s' \<Longrightarrow> stop s \<Longrightarrow> stop s'"
  by (cases e)
     (auto simp: enqueue_def worker_fetch_def set_stop_def
           split: if_splits worker.splits destructor.splits)

lemma run_stop_mono: "run es s = Next s' \<Longrightarrow> stop s \<Longrightarrow> stop s'"
proof (induction es arbitrary: s)
  case Nil
  then show ?case by simp
next
  case (Cons e es)
  from Cons.prems(1) obtain s1 where a: "step e s = Next s1" and b: "run es s1 = Next s'"
    by (auto split: result.splits)
  from Cons.IH [OF b step_stop_mono [OF a Cons.prems(2)]] show ?case .
qed

lemma run_append:
  "run (es @ fs) s = (case run es s of Next s' \<Rightarrow> run fs s' | Disabled \<Rightarrow> Disabled | Terminate \<Rightarrow> Terminate)"
  by (induction es arbitrary: s) (auto split: result.splits)

lemma step_length_workers: "step e s = Next s' \<Longrightarrow> length (workers s') = length (workers s)"
  by (cases e)
     (auto simp: enqueue_def worker_fetch_def set_stop_def
           split: if_splits worker.splits destructor.splits)

lemma run_length_workers: "run es s = Next s' \<Longrightarrow> length (workers s') = length (workers s)"
proof (induction es arbitrary: s)
  case Nil
  then show ?case by simp
next
  case (Cons e es)
  from Cons.prems(1) obtain s1 where a: "step e s = Next s1" and b: "run es s1 = Next s'"
    by (auto split: result.splits)
  from Cons.IH [OF b] step_length_workers [OF a] show ?case by simp
qed

lemma fetch_n_drain:
  "stop s \<Longrightarrow> tasks s = ts \<Longrightarrow> fetch_n (length ts) s = Some (ts, s\<lparr>tasks := []\<rparr>)"
  by (induction ts arbitrary: s) (auto simp: worker_fetch_def)

lemma mset_running_update:
  "i < length ws \<Longrightarrow>
   mset (concat (map running_task (ws[i := w]))) + mset (running_task (ws ! i))
   = mset (concat (map running_task ws)) + mset (running_task w)"
proof (induction ws arbitrary: i)
  case Nil
  then show ?case by simp
next
  case (Cons a ws)
  then show ?case by (cases i) (auto simp: ac_simps)
qed

lemma weight_update:
  "i < length ws \<Longrightarrow>
   sum_list (map weight (ws[i := w])) + weight (ws ! i) = sum_list (map weight ws) + weight w"
proof (induction ws arbitrary: i)
  case Nil
  then show ?case by simp
next
  case (Cons a ws)
  then show ?case by (cases i) auto
qed

lemma worker_fetch_Takes:
  "worker_fetch s = Takes t s1 \<Longrightarrow> \<exists>ts. tasks s = t # ts \<and> s1 = s\<lparr>tasks := ts\<rparr>"
  by (cases "tasks s") (auto simp: worker_fetch_def split: if_splits)

lemma step_held:
  assumes "step e s = Next s'"
  shows "held s' = held s + (case e of Enqueue f \<Rightarrow> (if stop s then {#} else {#f#}) | _ \<Rightarrow> {#})"
proof (cases e)
  case (Enqueue f)
  with assms show ?thesis
    by (auto simp: held_def running_def enqueue_def split: if_splits)
next
  case (Worker_fetch i)
  with assms have i: "i < length (workers s)" and w: "workers s ! i = Waiting"
    by (auto split: if_splits)
  show ?thesis
  proof (cases "worker_fetch s")
    case Sleeps
    with assms Worker_fetch i w show ?thesis by simp
  next
    case Leaves
    with assms Worker_fetch i w have "s' = s\<lparr>workers := (workers s)[i := Exited]\<rparr>"
      by simp
    with mset_running_update [OF i, of Exited] w Worker_fetch show ?thesis
      by (simp add: held_def running_def)
  next
    case (Takes t s1)
    from worker_fetch_Takes [OF this] obtain ts
      where t: "tasks s = t # ts" and s1: "s1 = s\<lparr>tasks := ts\<rparr>"
      by blast
    from assms Worker_fetch i w Takes have "s' = s1\<lparr>workers := (workers s1)[i := Running t]\<rparr>"
      by simp
    with mset_running_update [OF i, of "Running t"] w Worker_fetch t s1 show ?thesis
      by (simp add: held_def running_def)
  qed
next
  case (Task_returns i)
  with assms obtain t where i: "i < length (workers s)" and w: "workers s ! i = Running t"
    and s': "s' = s\<lparr>workers := (workers s)[i := Waiting], executed := executed s @ [t]\<rparr>"
    by (auto split: if_splits worker.splits)
  with mset_running_update [OF i, of Waiting] Task_returns show ?thesis
    by (simp add: held_def running_def)
next
  case (Task_throws i)
  with assms show ?thesis by (auto split: if_splits worker.splits)
next
  case Dtor_stop
  with assms show ?thesis
    by (auto simp: held_def running_def set_stop_def split: if_splits)
next
  case Dtor_join
  with assms show ?thesis
    by (auto simp: held_def running_def split: if_splits destructor.splits)
next
  case Dtor_return
  with assms show ?thesis
    by (auto simp: held_def running_def split: if_splits destructor.splits)
qed

lemma pool_inv_init: "pool_inv (ThreadPool N)"
  by (simp add: pool_inv_def ThreadPool_def)

lemma step_pool_inv:
  assumes "step e s = Next s'" and "pool_inv s"
  shows "pool_inv s'"
proof (cases e)
  case (Enqueue f)
  with assms show ?thesis
    by (auto simp: pool_inv_def enqueue_def split: if_splits)
next
  case (Worker_fetch i)
  with assms have i: "i < length (workers s)" and w: "workers s ! i = Waiting"
    by (auto split: if_splits)
  show ?thesis
  proof (cases "worker_fetch s")
    case Sleeps
    with assms Worker_fetch i w show ?thesis by simp
  next
    case Leaves
    then have st: "stop s" "tasks s = []"
      by (auto simp: worker_fetch_def split: if_splits)
    from Leaves assms Worker_fetch i w have "s' = s\<lparr>workers := (workers s)[i := Exited]\<rparr>"
      by simp
    with assms(2) st i show ?thesis
      by (auto simp: pool_inv_def nth_list_update)
  next
    case (Takes t s1)
    from worker_fetch_Takes [OF this] obtain ts
      where t: "tasks s = t # ts" and s1: "s1 = s\<lparr>tasks := ts\<rparr>"
      by blast
    from assms Worker_fetch i w Takes have "s' = s1\<lparr>workers := (workers s1)[i := Running t]\<rparr>"
      by simp
    with assms(2) s1 t i w show ?thesis
      by (auto simp: pool_inv_def nth_list_update)
  qed
next
  case (Task_returns i)
  with assms obtain t where i: "i < length (workers s)" and w: "workers s ! i = Running t"
    and s': "s' = s\<lparr>workers := (workers s)[i := Waiting], executed := executed s @ [t]\<rparr>"
    by (auto split: if_splits worker.splits)
  with assms(2) show ?thesis
    by (auto simp: pool_inv_def nth_list_update)
next
  case (Task_throws i)
  with assms show ?thesis by (auto split: if_splits worker.splits)
next
  case Dtor_stop
  with assms show ?thesis
    by (auto simp: pool_inv_def set_stop_def split: if_splits)
next
  case Dtor_join
  with assms obtain k where k: "dtor s = Joining k" "k < length (workers s)"
    "workers s ! k = Exited" and s': "s' = s\<lparr>dtor := Joining (Suc k)\<rparr>"
    by (auto split: if_splits destructor.splits)
  with assms(2) show ?thesis
    by (auto simp: pool_inv_def less_Suc_eq)
next
  case Dtor_return
  with assms show ?thesis
    by (auto simp: pool_inv_def split: if_splits destructor.splits)
qed

lemma run_pool_inv: "run es s = Next s' \<Longrightarrow> pool_inv s \<Longrightarrow> pool_inv s'"
proof (induction es arbitrary: s)
  case Nil
  then show ?case by simp
next
  case (Cons e es)
  from Cons.prems(1) obtain s1 where a: "step e s = Next s1" and b: "run es s1 = Next s'"
    by (auto split: result.splits)
  from Cons.IH [OF b step_pool_inv [OF a Cons.prems(2)]] show ?case .
qed

lemma step_worker_pending:
  assumes "step e s = Next s'" and "is_worker_event e"
  shows "pending s' < pending s"
proof (cases e)
  case (Worker_fetch i)
  with assms have i: "i < length (workers s)" and w: "workers s ! i = Waiting"
    by (auto split: if_splits)
  show ?thesis
  proof (cases "worker_fetch s")
    case Sleeps
    with assms Worker_fetch i w show ?thesis by simp
  next
    case Leaves
    with assms Worker_fetch i w have "s' = s\<lparr>workers := (workers s)[i := Exited]\<rparr>"
      by simp
    with weight_update [OF i, of Exited] w show ?thesis
      by (simp add: pending_def)
  next
    case (Takes t s1)
    from worker_fetch_Takes [OF this] obtain ts
      where t: "tasks s = t # ts" and s1: "s1 = s\<lparr>tasks := ts\<rparr>"
      by blast
    from assms Worker_fetch i w Takes have "s' = s1\<lparr>workers := (workers s1)[i := Running t]\<rparr>"
      by simp
    with weight_update [OF i, of "Running t"] w t s1 show ?thesis
      by (simp add: pending_def)
  qed
next
  case (Task_returns i)
  with assms obtain t where i: "i < length (workers s)" and w: "workers s ! i = Running t"
    and s': "s' = s\<lparr>workers := (workers s)[i := Waiting], executed := executed s @ [t]\<rparr>"
    by (auto split: if_splits worker.splits)
  with weight_update [OF i, of Waiting] show ?thesis
    by (simp add: pending_def)
qed (use assms in auto)

lemma step_other_pending:
  assumes "step e s = Next s'" and "\<not> is_worker_event e" and "stop s"
  shows "pending s' = pending s"
  using assms
  by (cases e)
     (auto simp: pending_def enqueue_def set_stop_def
           split: if_splits destructor.splits worker.splits)

lemma run_pending:
  "run es s = Next s' \<Longrightarrow> stop s \<Longrightarrow>
   length (filter is_worker_event es) + pending s' \<le> pending s"
proof (induction es arbitrary: s)
  case Nil
  then show ?case by simp
next
  case (Cons e es)
  from Cons.prems(1) obtain s1 where a: "step e s = Next s1" and b: "run es s1 = Next s'"
    by (auto split: result.splits)
  note ih = Cons.IH [OF b step_stop_mono [OF a Cons.prems(2)]]
  show ?case
  proof (cases "is_worker_event e")
    case True
    with step_worker_pending [OF a] ih show ?thesis by simp
  next
    case False
    with step_other_pending [OF a _ Cons.prems(2)] ih show ?thesis by simp
  qed
qed

lemma worker_progress:
  assumes "stop s" and "i < length (workers s)" and "workers s ! i \<noteq> Exited"
  shows "(\<exists>s'. step (Worker_fetch i) s = Next s') \<or> (\<exists>s'. step (Task_returns i) s = Next s')"
  using assms
  by (cases "workers s ! i") (auto simp: worker_fetch_def)

lemma step_worker_dtor:
  "step e s = Next s' \<Longrightarrow> is_worker_event e \<Longrightarrow> dtor s' = dtor s"
  by (cases e) (auto simp: worker_fetch_def split: if_splits worker.splits)

lemma drain_exists:
  "stop s \<Longrightarrow>
   \<exists>es s'. list_all is_worker_event es \<and> run es s = Next s' \<and> all_exited s' \<and> dtor s' = dtor s"
proof (induction "pending s" arbitrary: s rule: less_induct)
  case less
  show ?case
  proof (cases "all_exited s")
    case True
    have "list_all is_worker_event [] \<and> run [] s = Next s \<and> all_exited s \<and> dtor s = dtor s"
      using True by simp
    then show ?thesis by blast
  next
    case False
    then obtain i where i: "i < length (workers s)" "workers s ! i \<noteq> Exited"
      by (auto simp: all_exited_def list_all_length)
    from worker_progress [OF less.prems i] obtain e s1
      where e: "is_worker_event e" "step e s = Next s1"
      by (metis is_worker_event.simps(1,2))
    from less.hyps [OF step_worker_pending [OF e(2) e(1)] step_stop_mono [OF e(2) less.prems]]
    obtain es s' where r: "list_all is_worker_event es" "run es s1 = Next s'" "all_exited s'"
      "dtor s' = dtor s1"
      by blast
    have "list_all is_worker_event (e # es) \<and> run (e # es) s = Next s' \<and> all_exited s'
      \<and> dtor s' = dtor s"
      using e r step_worker_dtor [OF e(2) e(1)] by simp
    then show ?thesis by blast
  qed
qed

lemma joins_go_through:
  "all_exited s \<Longrightarrow> dtor s = Joining k \<Longrightarrow> k \<le> length (workers s) \<Longrightarrow>
   n = length (workers s) - k \<Longrightarrow>
   run (replicate n Dtor_join @ [Dtor_return]) s = Next (s\<lparr>dtor := Returned\<rparr>)"
proof (induction n arbitrary: s k)
  case 0
  then show ?case by simp
next
  case (Suc n)
  from Suc.prems have k: "k < length (workers s)" by simp
  with Suc.prems(1) have w: "workers s ! k = Exited"
    by (simp add: all_exited_def list_all_length)
  let ?s1 = "s\<lparr>dtor := Joining (Suc k)\<rparr>"
  have a: "step Dtor_join s = Next ?s1"
    using Suc.prems(2) k w by simp
  have "run (replicate n Dtor_join @ [Dtor_return]) ?s1 = Next (?s1\<lparr>dtor := Returned\<rparr>)"
    using Suc.prems k by (intro Suc.IH [where k = "Suc k"]) (auto simp: all_exited_def)
  with a show ?case by simp
qed

lemma step_stays_open:
  "step e s = Next s' \<Longrightarrow> e \<noteq> Dtor_stop \<Longrightarrow> \<not> stop s \<Longrightarrow> \<not> stop s'"
  by (cases e)
     (auto simp: enqueue_def worker_fetch_def
           split: if_splits worker.splits destructor.splits)

lemma run_held_open:
  "run es s = Next s' \<Longrightarrow> Dtor_stop \<notin> set es \<Longrightarrow> \<not> stop s \<Longrightarrow>
   \<not> stop s' \<and> held s' = held s + mset (enqueued es)"
proof (induction es arbitrary: s)
  case Nil
  then show ?case by simp
next
  case (Cons e es)
  from Cons.prems(1) obtain s1 where a: "step e s = Next s1" and b: "run es s1 = Next s'"
    by (auto split: result.splits)
  from Cons.prems(2) have n: "e \<noteq> Dtor_stop" "Dtor_stop \<notin> set es" by auto
  note ih = Cons.IH [OF b n(2) step_stays_open [OF a n(1) Cons.prems(3)]]
  from step_held [OF a] Cons.prems(3) n(1)
  have "held s1 + mset (enqueued es) = held s + mset (enqueued (e # es))"
    by (cases e) simp_all
  with ih show ?case by simp
qed

lemma run_held_stopped:
  "run es s = Next s' \<Longrightarrow> stop s \<Longrightarrow> held s' = held s"
proof (induction es arbitrary: s)
  case Nil
  then show ?case by simp
next
  case (Cons e es)
  from Cons.prems(1) obtain s1 where a: "step e s = Next s1" and b: "run es s1 = Next s'"
    by (auto split: result.splits)
  from step_held [OF a] Cons.prems(2) have "held s1 = held s"
    by (cases e) simp_all
  with Cons.IH [OF b step_stop_mono [OF a Cons.prems(2)]] show ?case by simp
qed

lemma all_exited_running: "all_exited s \<Longrightarrow> running s = []"
proof -
  have "list_all (\<lambda>w. w = Exited) ws \<Longrightarrow> concat (map running_task ws) = []" for ws :: "'t worker list"
    by (induction ws) auto
  then show "all_exited s \<Longrightarrow> running s = []"
    by (simp add: all_exited_def running_def)
qed

lemma held_init: "held (ThreadPool N) = {#}"
  by (simp add: held_def running_def ThreadPool_def)

lemma p_run_append:
  "p_run (es @ fs) p =
     (case p_run es p of Next p' \<Rightarrow> p_run fs p' | Disabled \<Rightarrow> Disabled | Terminate \<Rightarrow> Terminate)"
  by (induction es arbitrary: p) (auto split: result.splits)

lemma serve_waiting:
  "i < length (workers (pool p)) \<Longrightarrow> workers (pool p) ! i = Waiting \<Longrightarrow>
   i \<notin> set (faulted p) \<Longrightarrow> tasks (pool p) = ts \<Longrightarrow>
   p_run (serve i (length ts)) p
     = Next (p\<lparr>pool := (pool p)\<lparr>tasks := [], executed := executed (pool p) @ ts\<rparr>\<rparr>)"
proof (induction ts arbitrary: p)
  case Nil
  then show ?case by (simp add: serve_def)
next
  case (Cons t ts)
  let ?s = "pool p"
  let ?s1 = "?s\<lparr>tasks := ts, workers := (workers ?s)[i := Running t]\<rparr>"
  let ?s2 = "?s\<lparr>tasks := ts, executed := executed ?s @ [t]\<rparr>"
  have f: "worker_fetch ?s = Takes t (?s\<lparr>tasks := ts\<rparr>)"
    using Cons.prems(4) by (simp add: worker_fetch_def)
  have a: "p_step (Thread (Worker_fetch i)) p = Next (p\<lparr>pool := ?s1\<rparr>)"
    using Cons.prems(1,2,3) f by simp
  have w: "(workers ?s)[i := Waiting] = workers ?s"
    using Cons.prems(1,2) by (simp add: list_update_same_conv)
  have b: "p_step (Thread (Task_returns i)) (p\<lparr>pool := ?s1\<rparr>) = Next (p\<lparr>pool := ?s2\<rparr>)"
    using Cons.prems(1,3) w by simp
  have "p_run (serve i (length ts)) (p\<lparr>pool := ?s2\<rparr>)
      = Next ((p\<lparr>pool := ?s2\<rparr>)\<lparr>pool := (pool (p\<lparr>pool := ?s2\<rparr>))
            \<lparr>tasks := [], executed := executed (pool (p\<lparr>pool := ?s2\<rparr>)) @ ts\<rparr>\<rparr>)"
    using Cons.prems(1,2,3) by (intro Cons.IH) simp_all
  with a b show ?case by (simp add: serve_def)
qed

lemma step_other_worker:
  "step e s = Next s' \<Longrightarrow> worker_of e \<noteq> Some i \<Longrightarrow> workers s' ! i = workers s ! i"
  by (cases e)
     (auto simp: enqueue_def worker_fetch_def set_stop_def
           split: if_splits worker.splits destructor.splits)

lemma p_step_after_fault:
  assumes "p_step e p = Next p'" and "i \<in> set (faulted p)"
  shows "i \<in> set (faulted p') \<and> workers (pool p') ! i = workers (pool p) ! i \<and>
    (\<forall>e'. e = Thread e' \<longrightarrow> worker_of e' \<noteq> Some i)"
proof (cases e)
  case Abort
  with assms show ?thesis by (simp split: if_splits)
next
  case (Thread e')
  from assms Thread have n: "worker_of e' \<noteq> Some i"
    by (auto split: if_splits option.splits)
  show ?thesis
  proof (cases "step e' (pool p)")
    case (Next s')
    with assms Thread have "p' = p\<lparr>pool := s'\<rparr>"
      by (auto split: if_splits)
    with step_other_worker [OF Next n] assms(2) n Thread show ?thesis by simp
  next
    case Disabled
    with assms Thread show ?thesis by (auto split: if_splits)
  next
    case Terminate
    with assms Thread obtain j where "p' = p\<lparr>faulted := j # faulted p\<rparr>"
      by (auto split: if_splits option.splits)
    with assms(2) n Thread show ?thesis by simp
  qed
qed

lemma p_run_after_fault:
  "p_run es p = Next p' \<Longrightarrow> i \<in> set (faulted p) \<Longrightarrow>
   i \<in> set (faulted p') \<and> workers (pool p') ! i = workers (pool p) ! i \<and>
   (\<forall>e'. Thread e' \<in> set es \<longrightarrow> worker_of e' \<noteq> Some i)"
proof (induction es arbitrary: p)
  case Nil
  then show ?case by simp
next
  case (Cons e es)
  from Cons.prems(1) obtain p1 where a: "p_step e p = Next p1" and b: "p_run es p1 = Next p'"
    by (auto split: result.splits)
  note s = p_step_after_fault [OF a Cons.prems(2)]
  from s have f1: "i \<in> set (faulted p1)" by blast
  from Cons.IH [OF b f1] s show ?case by auto
qed

text \<open>
  Claim C3. The pool's queue is closed by setting \<^verbatim>\<open>stop\<close>; a worker's pass through its
  locked block is the pop, and leaving the loop is its failure on the closed queue. When
  \<^verbatim>\<open>stop\<close> is set with \<open>K\<close> tasks queued, the next \<open>K\<close> passes each take a task, in the order
  of insertion, and the pass after them leaves the loop; a pass leaves the loop exactly when
  \<^verbatim>\<open>stop\<close> is set and the queue is empty.
\<close>

theorem close_drains:
  assumes "stop s"
  shows "fetch_n (length (tasks s)) s = Some (tasks s, s\<lparr>tasks := []\<rparr>) \<and>
    worker_fetch (s\<lparr>tasks := []\<rparr>) = Leaves \<and>
    (\<forall>s'::'t thread_pool. (worker_fetch s' = Leaves) = (stop s' \<and> tasks s' = []))"
  using fetch_n_drain [OF assms refl] assms
  by (auto simp: worker_fetch_def)

theorem close_drains_witness:
  "stop \<lparr>workers = [Waiting], tasks = [1, 2, 3 :: int], stop = True,
         dtor = Joining 0, executed = []\<rparr> \<and>
   fetch_n (length [1, 2, 3 :: int])
     \<lparr>workers = [Waiting], tasks = [1, 2, 3 :: int], stop = True,
         dtor = Joining 0, executed = []\<rparr>
     = Some ([1, 2, 3], \<lparr>workers = [Waiting], tasks = [], stop = True,
         dtor = Joining 0, executed = []\<rparr>) \<and>
   worker_fetch \<lparr>workers = [Waiting], tasks = ([] :: int list), stop = True,
         dtor = Joining 0, executed = []\<rparr> = Leaves"
proof -
  let ?s = "\<lparr>workers = [Waiting], tasks = [1, 2, 3 :: int], stop = True,
         dtor = Joining 0, executed = []\<rparr>"
  have h: "stop ?s" by simp
  from close_drains [OF h]
  have "fetch_n (length (tasks ?s)) ?s = Some (tasks ?s, ?s\<lparr>tasks := []\<rparr>) \<and>
      worker_fetch (?s\<lparr>tasks := []\<rparr>) = Leaves"
    by blast
  then show ?thesis by simp
qed

text \<open>
  Claim C4. An \<^verbatim>\<open>enqueue\<close> on a pool whose \<^verbatim>\<open>stop\<close> flag is set throws
  \<^verbatim>\<open>std::runtime_error\<close> without waiting and leaves the pool, its queue included, as it
  was; this stays so in every state the pool reaches afterwards, the destructor's return
  included.
\<close>

theorem enqueue_after_stop:
  assumes "stop s"
  shows "enqueue f s = Inl (Runtime_error ''enqueue on stopped ThreadPool'') \<and>
    step (Enqueue f) s = Next s \<and>
    (\<forall>es s'. run es s = Next s' \<longrightarrow>
       enqueue f s' = Inl (Runtime_error ''enqueue on stopped ThreadPool'') \<and>
       step (Enqueue f) s' = Next s')"
proof -
  have a: "enqueue f s' = Inl (Runtime_error ''enqueue on stopped ThreadPool'') \<and>
      step (Enqueue f) s' = Next s'" if "stop s'" for s' :: "'a thread_pool"
    using that by (simp add: enqueue_def)
  from a [OF assms] a run_stop_mono [OF _ assms] show ?thesis by blast
qed

theorem enqueue_after_stop_witness:
  "run [Enqueue 1, Dtor_stop] (ThreadPool 1)
     = Next \<lparr>workers = [Waiting], tasks = [1 :: int], stop = True,
             dtor = Joining 0, executed = []\<rparr> \<and>
   enqueue 2 \<lparr>workers = [Waiting], tasks = [1 :: int], stop = True,
             dtor = Joining 0, executed = []\<rparr>
     = Inl (Runtime_error ''enqueue on stopped ThreadPool'') \<and>
   run [Worker_fetch 0, Task_returns 0, Worker_fetch 0, Dtor_join, Dtor_return]
       \<lparr>workers = [Waiting], tasks = [1 :: int], stop = True,
        dtor = Joining 0, executed = []\<rparr>
     = Next \<lparr>workers = [Exited], tasks = [], stop = True,
             dtor = Returned, executed = [1]\<rparr> \<and>
   enqueue 2 \<lparr>workers = [Exited], tasks = [] :: int list, stop = True,
             dtor = Returned, executed = [1]\<rparr>
     = Inl (Runtime_error ''enqueue on stopped ThreadPool'')"
proof -
  let ?s = "\<lparr>workers = [Waiting], tasks = [1 :: int], stop = True,
             dtor = Joining 0, executed = []\<rparr>"
  let ?s' = "\<lparr>workers = [Exited], tasks = [] :: int list, stop = True,
             dtor = Returned, executed = [1]\<rparr>"
  have r0: "run [Enqueue 1, Dtor_stop] (ThreadPool 1) = Next ?s"
    by (simp add: ThreadPool_def enqueue_def set_stop_def)
  have h: "stop ?s" by simp
  have r: "run [Worker_fetch 0, Task_returns 0, Worker_fetch 0, Dtor_join, Dtor_return] ?s
      = Next ?s'"
    by (simp add: worker_fetch_def)
  from enqueue_after_stop [OF h, of 2] r r0 show ?thesis by blast
qed

text \<open>
  Claim C5, as stated: a fault raised by a task is caught where the task is executed and
  ends neither the worker nor the pool; the worker goes on with its loop. On the code,
  with two workers and two tasks, the first task throws on worker 0:
  \<^verbatim>\<open>std::terminate\<close> is called, worker 0 cannot take the task still queued, and the
  process can end, here after worker 1 has run the second task.
\<close>

theorem task_fault_counterexample:
  "p_run [Thread (Enqueue 1), Thread (Enqueue 2), Thread (Worker_fetch 0),
          Thread (Task_throws 0)] (start (ThreadPool 2))
     = Next \<lparr>pool = \<lparr>workers = [Running 1, Waiting], tasks = [2 :: int], stop = False,
                      dtor = Not_called, executed = []\<rparr>, faulted = [0]\<rparr> \<and>
   p_step (Thread (Worker_fetch 0))
       \<lparr>pool = \<lparr>workers = [Running 1, Waiting], tasks = [2 :: int], stop = False,
                 dtor = Not_called, executed = []\<rparr>, faulted = [0]\<rparr>
     = Disabled \<and>
   p_run [Thread (Worker_fetch 1), Thread (Task_returns 1)]
       \<lparr>pool = \<lparr>workers = [Running 1, Waiting], tasks = [2 :: int], stop = False,
                 dtor = Not_called, executed = []\<rparr>, faulted = [0]\<rparr>
     = Next \<lparr>pool = \<lparr>workers = [Running 1, Waiting], tasks = [], stop = False,
                      dtor = Not_called, executed = [2]\<rparr>, faulted = [0]\<rparr> \<and>
   p_step Abort
       \<lparr>pool = \<lparr>workers = [Running 1, Waiting], tasks = [] :: int list, stop = False,
                 dtor = Not_called, executed = [2]\<rparr>, faulted = [0]\<rparr>
     = Terminate"
  by (simp add: start_def ThreadPool_def enqueue_def worker_fetch_def numeral_2_eq_2)

text \<open>
  Claim C5, amended. A worker whose task returns goes on with its loop and processes the
  subsequent tasks: alone, it executes the task and then the whole queue, in order. A
  fault raised by a task is not caught: the worker's lambda has no handler around
  \<^verbatim>\<open>task()\<close>, so the exception leaves the thread and \<^verbatim>\<open>std::terminate\<close> is called. In
  every history that follows, that worker takes no step (it never comes back to its loop
  and its task stays the one it was running), and the process can end at any moment.
\<close>

theorem task_fault_not_caught:
  assumes "i < length (workers (pool p))"
    and "workers (pool p) ! i = Running t"
    and "i \<notin> set (faulted p)"
  shows "p_run (Thread (Task_returns i) # serve i (length (tasks (pool p)))) p
      = Next (p\<lparr>pool := (pool p)\<lparr>workers := (workers (pool p))[i := Waiting], tasks := [],
                 executed := executed (pool p) @ t # tasks (pool p)\<rparr>\<rparr>) \<and>
    p_step (Thread (Task_throws i)) p = Next (p\<lparr>faulted := i # faulted p\<rparr>) \<and>
    (\<forall>es p'. p_run (Thread (Task_throws i) # es) p = Next p' \<longrightarrow>
       workers (pool p') ! i = Running t \<and>
       (\<forall>e. Thread e \<in> set es \<longrightarrow> worker_of e \<noteq> Some i) \<and>
       (\<forall>e. worker_of e = Some i \<longrightarrow> p_step (Thread e) p' = Disabled) \<and>
       p_step Abort p' = Terminate \<and>
       p_run (Thread (Task_throws i) # es @ [Abort]) p = Terminate)"
proof -
  let ?s = "pool p"
  let ?p1 = "p\<lparr>pool := ?s\<lparr>workers := (workers ?s)[i := Waiting],
                  executed := executed ?s @ [t]\<rparr>\<rparr>"
  have r: "p_step (Thread (Task_returns i)) p = Next ?p1"
    using assms by simp
  have "p_run (serve i (length (tasks (pool ?p1)))) ?p1
      = Next (?p1\<lparr>pool := (pool ?p1)\<lparr>tasks := [],
            executed := executed (pool ?p1) @ tasks (pool ?p1)\<rparr>\<rparr>)"
    using assms by (intro serve_waiting) simp_all
  with r have one: "p_run (Thread (Task_returns i) # serve i (length (tasks ?s))) p
      = Next (p\<lparr>pool := ?s\<lparr>workers := (workers ?s)[i := Waiting], tasks := [],
                 executed := executed ?s @ t # tasks ?s\<rparr>\<rparr>)"
    by simp
  let ?p2 = "p\<lparr>faulted := i # faulted p\<rparr>"
  have th: "p_step (Thread (Task_throws i)) p = Next ?p2"
    using assms by simp
  have after: "workers (pool p') ! i = Running t \<and>
       (\<forall>e. Thread e \<in> set es \<longrightarrow> worker_of e \<noteq> Some i) \<and>
       (\<forall>e. worker_of e = Some i \<longrightarrow> p_step (Thread e) p' = Disabled) \<and>
       p_step Abort p' = Terminate \<and>
       p_run (Thread (Task_throws i) # es @ [Abort]) p = Terminate"
    if h: "p_run (Thread (Task_throws i) # es) p = Next p'" for es p'
  proof -
    from h th have r2: "p_run es ?p2 = Next p'" by simp
    have "i \<in> set (faulted ?p2)" by simp
    from p_run_after_fault [OF r2 this] assms(2)
    have f: "i \<in> set (faulted p')" and w: "workers (pool p') ! i = Running t"
      and n: "\<forall>e. Thread e \<in> set es \<longrightarrow> worker_of e \<noteq> Some i"
      by simp_all
    from f have d: "\<forall>e. worker_of e = Some i \<longrightarrow> p_step (Thread e) p' = Disabled"
      by simp
    from f have ab: "p_step Abort p' = Terminate" by auto
    have "p_run (Thread (Task_throws i) # es @ [Abort]) p = p_run (es @ [Abort]) ?p2"
      using th by simp
    also have "\<dots> = Terminate"
      using r2 ab by (simp add: p_run_append)
    finally show ?thesis using w n d ab by blast
  qed
  from one th after show ?thesis by blast
qed

theorem task_fault_not_caught_witness:
  "(0::nat) < length (workers (pool \<lparr>pool = \<lparr>workers = [Running 1, Waiting],
       tasks = [2, 3 :: int], stop = False, dtor = Not_called, executed = []\<rparr>,
       faulted = []\<rparr>)) \<and>
   p_run [Thread (Task_returns 0), Thread (Worker_fetch 0), Thread (Task_returns 0),
          Thread (Worker_fetch 0), Thread (Task_returns 0)]
       \<lparr>pool = \<lparr>workers = [Running 1, Waiting], tasks = [2, 3 :: int], stop = False,
                 dtor = Not_called, executed = []\<rparr>, faulted = []\<rparr>
     = Next \<lparr>pool = \<lparr>workers = [Waiting, Waiting], tasks = [], stop = False,
                      dtor = Not_called, executed = [1, 2, 3]\<rparr>, faulted = []\<rparr> \<and>
   p_run [Thread (Task_throws 0), Thread (Worker_fetch 1), Thread (Task_returns 1)]
       \<lparr>pool = \<lparr>workers = [Running 1, Waiting], tasks = [2, 3 :: int], stop = False,
                 dtor = Not_called, executed = []\<rparr>, faulted = []\<rparr>
     = Next \<lparr>pool = \<lparr>workers = [Running 1, Waiting], tasks = [3], stop = False,
                      dtor = Not_called, executed = [2]\<rparr>, faulted = [0]\<rparr> \<and>
   p_step (Thread (Worker_fetch 0))
       \<lparr>pool = \<lparr>workers = [Running 1, Waiting], tasks = [3 :: int], stop = False,
                 dtor = Not_called, executed = [2]\<rparr>, faulted = [0]\<rparr>
     = Disabled \<and>
   p_run [Thread (Task_throws 0), Thread (Worker_fetch 1), Thread (Task_returns 1), Abort]
       \<lparr>pool = \<lparr>workers = [Running 1, Waiting], tasks = [2, 3 :: int], stop = False,
                 dtor = Not_called, executed = []\<rparr>, faulted = []\<rparr>
     = Terminate"
proof -
  let ?p = "\<lparr>pool = \<lparr>workers = [Running 1, Waiting], tasks = [2, 3 :: int], stop = False,
                 dtor = Not_called, executed = []\<rparr>, faulted = []\<rparr>"
  let ?p' = "\<lparr>pool = \<lparr>workers = [Running 1, Waiting], tasks = [3 :: int], stop = False,
                 dtor = Not_called, executed = [2]\<rparr>, faulted = [0]\<rparr>"
  let ?es = "[Thread (Worker_fetch 1), Thread (Task_returns 1)] :: int p_event list"
  have i: "0 < length (workers (pool ?p))" by simp
  have w: "workers (pool ?p) ! 0 = Running 1" by simp
  have f: "0 \<notin> set (faulted ?p)" by simp
  note t = task_fault_not_caught [OF i w f]
  have r: "p_run (Thread (Task_throws 0) # ?es) ?p = Next ?p'"
    by (simp add: worker_fetch_def)
  from t have a: "p_run (Thread (Task_returns 0) # serve 0 (length (tasks (pool ?p)))) ?p
      = Next (?p\<lparr>pool := (pool ?p)\<lparr>workers := (workers (pool ?p))[0 := Waiting], tasks := [],
                 executed := executed (pool ?p) @ 1 # tasks (pool ?p)\<rparr>\<rparr>)"
    by blast
  from t r have b: "p_step (Thread (Worker_fetch 0)) ?p' = Disabled \<and>
      p_run (Thread (Task_throws 0) # ?es @ [Abort]) ?p = Terminate"
    by (metis worker_of.simps(1))
  from a have a': "p_run [Thread (Task_returns 0), Thread (Worker_fetch 0), Thread (Task_returns 0),
          Thread (Worker_fetch 0), Thread (Task_returns 0)] ?p
     = Next \<lparr>pool = \<lparr>workers = [Waiting, Waiting], tasks = [], stop = False,
                      dtor = Not_called, executed = [1, 2, 3]\<rparr>, faulted = []\<rparr>"
    by (simp add: serve_def numeral_2_eq_2)
  from a' b r i show ?thesis by simp
qed

text \<open>
  Claim C7. Once \<^verbatim>\<open>stop\<close> is set, no step of any thread (enqueue, the worker loop, the
  destructor) and no history of such steps clears it; setting it when it is already
  set changes nothing, and setting it twice is setting it once.
\<close>

theorem stop_monotonic:
  assumes "stop s"
  shows "(\<forall>e s'. step e s = Next s' \<longrightarrow> stop s') \<and>
    (\<forall>es s'. run es s = Next s' \<longrightarrow> stop s') \<and>
    (\<forall>t s'. worker_fetch s = Takes t s' \<longrightarrow> stop s') \<and>
    set_stop s = s \<and>
    set_stop (set_stop s0) = set_stop s0"
proof -
  have "stop s'" if "worker_fetch s = Takes t s'" for t s'
    using worker_fetch_Takes [OF that] assms by auto
  moreover have "set_stop s = s" using assms by (simp add: set_stop_def)
  moreover have "set_stop (set_stop s0) = set_stop s0" by (simp add: set_stop_def)
  ultimately show ?thesis
    using step_stop_mono [OF _ assms] run_stop_mono [OF _ assms] by blast
qed

theorem stop_monotonic_witness:
  "stop \<lparr>workers = [Waiting], tasks = [1 :: int], stop = True,
         dtor = Joining 0, executed = []\<rparr> \<and>
   run [Worker_fetch 0, Task_returns 0, Enqueue 2, Worker_fetch 0, Dtor_join, Dtor_return]
       \<lparr>workers = [Waiting], tasks = [1 :: int], stop = True,
        dtor = Joining 0, executed = []\<rparr>
     = Next \<lparr>workers = [Exited], tasks = [], stop = True,
             dtor = Returned, executed = [1]\<rparr> \<and>
   stop \<lparr>workers = [Exited], tasks = [] :: int list, stop = True,
         dtor = Returned, executed = [1]\<rparr> \<and>
   set_stop \<lparr>workers = [Waiting], tasks = [1 :: int], stop = True,
         dtor = Joining 0, executed = []\<rparr>
     = \<lparr>workers = [Waiting], tasks = [1 :: int], stop = True,
         dtor = Joining 0, executed = []\<rparr>"
proof -
  let ?s = "\<lparr>workers = [Waiting], tasks = [1 :: int], stop = True,
             dtor = Joining 0, executed = []\<rparr>"
  let ?s' = "\<lparr>workers = [Exited], tasks = [] :: int list, stop = True,
             dtor = Returned, executed = [1]\<rparr>"
  have h: "stop ?s" by simp
  have r: "run [Worker_fetch 0, Task_returns 0, Enqueue 2, Worker_fetch 0, Dtor_join, Dtor_return] ?s
      = Next ?s'"
    by (simp add: worker_fetch_def enqueue_def)
  from stop_monotonic [OF h] r h show ?thesis by blast
qed

text \<open>
  Claim C8, as stated: for every pool of \<open>N\<close> workers, shutdown after \<open>F\<close> submitted tasks
  has every task executed exactly once before the workers exit. On the code, a pool of
  no workers is destroyed with its task still queued, and a task that throws while the
  pool shuts down ends the process before the second task is taken.
\<close>

theorem shutdown_counterexample:
  "run [Enqueue 7, Dtor_stop, Dtor_return] (ThreadPool 0)
     = Next \<lparr>workers = [], tasks = [7 :: int], stop = True, dtor = Returned, executed = []\<rparr> \<and>
   run [Enqueue 7, Enqueue 8, Worker_fetch 0, Dtor_stop, Task_throws 0] (ThreadPool 1)
     = (Terminate :: int thread_pool result)"
  by (simp add: ThreadPool_def enqueue_def worker_fetch_def set_stop_def)

text \<open>
  Claim C8, amended. Take a pool of \<open>N \<ge> 1\<close> workers, a history \<open>es1\<close> before the
  destructor is called and the state \<open>s2\<close> after its locked block. Along every history
  from \<open>s2\<close> in which no task throws: the workers take at most \<open>pending s2\<close> steps;
  every worker that has not exited has its next step enabled (none is blocked); when
  all workers have exited, the queue is empty, no task is being run and the tasks
  executed are exactly the tasks submitted, each once; and the destructor has returned
  only if all workers have exited. Some such history ends with the destructor returned.
\<close>

theorem shutdown_terminates_workers:
  assumes "0 < N"
    and "Dtor_stop \<notin> set es1"
    and "run (es1 @ [Dtor_stop]) (ThreadPool N) = Next s2"
  shows
    "(\<forall>es s. run es s2 = Next s \<longrightarrow>
        length (filter is_worker_event es) \<le> pending s2 \<and>
        (\<forall>i<N. workers s ! i \<noteq> Exited \<longrightarrow>
           (\<exists>s'. step (Worker_fetch i) s = Next s') \<or> (\<exists>s'. step (Task_returns i) s = Next s')) \<and>
        (all_exited s \<longrightarrow>
           tasks s = [] \<and> running s = [] \<and> mset (executed s) = mset (enqueued es1)) \<and>
        (dtor s = Returned \<longrightarrow> all_exited s)) \<and>
     (\<exists>es s. run es s2 = Next s \<and> dtor s = Returned)"
proof -
  from assms(3) obtain s1 where r1: "run es1 (ThreadPool N) = Next s1"
    and d: "step Dtor_stop s1 = Next s2"
    by (auto simp: run_append split: result.splits)
  have "\<not> stop (ThreadPool N :: 't thread_pool)"
    by (simp add: ThreadPool_def)
  from run_held_open [OF r1 assms(2) this]
  have open1: "\<not> stop s1" and h1: "held s1 = mset (enqueued es1)"
    by (simp_all add: held_init)
  from d have stop2: "stop s2"
    by (auto simp: set_stop_def split: if_splits)
  from step_held [OF d] h1 have h2: "held s2 = mset (enqueued es1)" by simp
  have inv2: "pool_inv s2"
    using run_pool_inv [OF assms(3) pool_inv_init] .
  have len2: "length (workers s2) = N"
    using run_length_workers [OF assms(3)] by (simp add: ThreadPool_def)
  have after: "length (filter is_worker_event es) \<le> pending s2 \<and>
        (\<forall>i<N. workers s ! i \<noteq> Exited \<longrightarrow>
           (\<exists>s'. step (Worker_fetch i) s = Next s') \<or> (\<exists>s'. step (Task_returns i) s = Next s')) \<and>
        (all_exited s \<longrightarrow>
           tasks s = [] \<and> running s = [] \<and> mset (executed s) = mset (enqueued es1)) \<and>
        (dtor s = Returned \<longrightarrow> all_exited s)"
    if r: "run es s2 = Next s" for es s
  proof -
    have st: "stop s" using run_stop_mono [OF r stop2] .
    have inv: "pool_inv s" using run_pool_inv [OF r inv2] .
    have len: "length (workers s) = N" using run_length_workers [OF r] len2 by simp
    have h: "held s = mset (enqueued es1)" using run_held_stopped [OF r stop2] h2 by simp
    have a: "length (filter is_worker_event es) \<le> pending s2"
      using run_pending [OF r stop2] by simp
    have b: "\<forall>i<N. workers s ! i \<noteq> Exited \<longrightarrow>
           (\<exists>s'. step (Worker_fetch i) s = Next s') \<or> (\<exists>s'. step (Task_returns i) s = Next s')"
      using worker_progress [OF st] len by blast
    have c: "tasks s = [] \<and> running s = [] \<and> mset (executed s) = mset (enqueued es1)"
      if x: "all_exited s"
    proof -
      from x assms(1) len have "workers s ! 0 = Exited"
        by (simp add: all_exited_def list_all_length)
      with inv assms(1) len have t: "tasks s = []"
        by (auto simp: pool_inv_def)
      from all_exited_running [OF x] t h show ?thesis
        by (simp add: held_def)
    qed
    have e: "all_exited s" if "dtor s = Returned"
      using that inv by (simp add: pool_inv_def all_exited_def list_all_length)
    from a b c e show ?thesis by blast
  qed
  have "\<exists>es s. run es s2 = Next s \<and> dtor s = Returned"
  proof -
    from d have j2: "dtor s2 = Joining 0"
      by (auto simp: set_stop_def split: if_splits)
    from drain_exists [OF stop2] obtain es s
      where r: "run es s2 = Next s" "all_exited s" "dtor s = dtor s2"
      by blast
    from joins_go_through [OF r(2), of 0 "length (workers s)"] r(3) j2
    have "run (replicate (length (workers s)) Dtor_join @ [Dtor_return]) s
        = Next (s\<lparr>dtor := Returned\<rparr>)"
      by simp
    with r(1) have "run (es @ replicate (length (workers s)) Dtor_join @ [Dtor_return]) s2
        = Next (s\<lparr>dtor := Returned\<rparr>)"
      by (simp add: run_append)
    moreover have "dtor (s\<lparr>dtor := Returned\<rparr>) = Returned" by simp
    ultimately show ?thesis by blast
  qed
  with after show ?thesis by blast
qed

theorem shutdown_terminates_workers_witness:
  "(0::nat) < 2 \<and>
   Dtor_stop \<notin> set [Enqueue 1, Enqueue 2, Worker_fetch 0, Enqueue (3 :: int)] \<and>
   run ([Enqueue 1, Enqueue 2, Worker_fetch 0, Enqueue 3] @ [Dtor_stop]) (ThreadPool 2)
     = Next \<lparr>workers = [Running 1, Waiting], tasks = [2, 3 :: int], stop = True,
             dtor = Joining 0, executed = []\<rparr> \<and>
   run [Task_returns 0, Worker_fetch 1, Worker_fetch 0, Task_returns 1, Task_returns 0,
        Worker_fetch 0, Worker_fetch 1, Dtor_join, Dtor_join, Dtor_return]
       \<lparr>workers = [Running 1, Waiting], tasks = [2, 3 :: int], stop = True,
        dtor = Joining 0, executed = []\<rparr>
     = Next \<lparr>workers = [Exited, Exited], tasks = [], stop = True,
             dtor = Returned, executed = [1, 2, 3]\<rparr> \<and>
   length (filter is_worker_event
       [Task_returns 0, Worker_fetch 1, Worker_fetch 0, Task_returns 1, Task_returns 0,
        Worker_fetch 0, Worker_fetch 1, Dtor_join, Dtor_join, Dtor_return :: int event])
     \<le> pending \<lparr>workers = [Running 1, Waiting], tasks = [2, 3 :: int], stop = True,
                  dtor = Joining 0, executed = []\<rparr> \<and>
   mset [1, 2, 3 :: int] = mset (enqueued [Enqueue 1, Enqueue 2, Worker_fetch 0, Enqueue 3])"
proof -
  let ?es1 = "[Enqueue 1, Enqueue 2, Worker_fetch 0, Enqueue (3 :: int)]"
  let ?s2 = "\<lparr>workers = [Running 1, Waiting], tasks = [2, 3 :: int], stop = True,
             dtor = Joining 0, executed = []\<rparr>"
  let ?es = "[Task_returns 0, Worker_fetch 1, Worker_fetch 0, Task_returns 1, Task_returns 0,
        Worker_fetch 0, Worker_fetch 1, Dtor_join, Dtor_join, Dtor_return :: int event]"
  let ?s = "\<lparr>workers = [Exited, Exited], tasks = [], stop = True,
             dtor = Returned, executed = [1, 2, 3 :: int]\<rparr>"
  have n: "(0::nat) < 2" by simp
  have m: "Dtor_stop \<notin> set ?es1" by simp
  have r: "run (?es1 @ [Dtor_stop]) (ThreadPool 2) = Next ?s2"
    by (simp add: ThreadPool_def enqueue_def worker_fetch_def set_stop_def numeral_2_eq_2)
  have r': "run ?es ?s2 = Next ?s"
    by (simp add: enqueue_def worker_fetch_def set_stop_def)
  have x: "all_exited ?s" by (simp add: all_exited_def)
  from shutdown_terminates_workers [OF n m r] r' x
  have "length (filter is_worker_event ?es) \<le> pending ?s2 \<and>
      mset (executed ?s) = mset (enqueued ?es1)"
    by blast
  with n m r r' show ?thesis by simp
qed

section \<open>Properties of the Mandelbrot iteration count\<close>

declare mandelbrot_loop.simps [simp del] loop_passes.simps [simp del]

lemma iterate_0: "iterate sq_add z c 0 = z"
  by (simp add: iterate_def)

lemma iterate_Suc: "iterate sq_add z c (Suc k) = iterate sq_add (sq_add z c) c k"
  by (simp add: iterate_def funpow_Suc_right del: funpow.simps)

lemma loop_bounds:
  "i \<le> MAX_ITERATIONS \<Longrightarrow>
   i \<le> mandelbrot_loop sq_add escapes c z i \<and>
   mandelbrot_loop sq_add escapes c z i \<le> MAX_ITERATIONS"
proof (induction sq_add escapes c z i rule: mandelbrot_loop.induct)
  case (1 sq_add escapes c z i)
  show ?case
  proof (cases "i < MAX_ITERATIONS")
    case False
    with "1.prems" show ?thesis by (simp add: mandelbrot_loop.simps)
  next
    case True
    show ?thesis
    proof (cases "escapes (sq_add z c)")
      case True
      with \<open>i < MAX_ITERATIONS\<close> show ?thesis by (simp add: mandelbrot_loop.simps)
    next
      case False
      from "1.IH" [OF True refl False] True
      have "i + 1 \<le> mandelbrot_loop sq_add escapes c (sq_add z c) (i + 1) \<and>
        mandelbrot_loop sq_add escapes c (sq_add z c) (i + 1) \<le> MAX_ITERATIONS"
        by simp
      moreover have "mandelbrot_loop sq_add escapes c z i
          = mandelbrot_loop sq_add escapes c (sq_add z c) (i + 1)"
        using True False by (subst mandelbrot_loop.simps) simp
      ultimately show ?thesis by simp
    qed
  qed
qed

lemma loop_escape:
  "i \<le> MAX_ITERATIONS \<Longrightarrow> mandelbrot_loop sq_add escapes c z i < MAX_ITERATIONS \<Longrightarrow>
   escapes (iterate sq_add z c (Suc (nat (mandelbrot_loop sq_add escapes c z i - i)))) \<and>
   (\<forall>k. 1 \<le> k \<and> k \<le> nat (mandelbrot_loop sq_add escapes c z i - i)
      \<longrightarrow> \<not> escapes (iterate sq_add z c k))"
proof (induction sq_add escapes c z i rule: mandelbrot_loop.induct)
  case (1 sq_add escapes c z i)
  show ?case
  proof (cases "i < MAX_ITERATIONS")
    case False
    with "1.prems" show ?thesis by (simp add: mandelbrot_loop.simps)
  next
    case True
    show ?thesis
    proof (cases "escapes (sq_add z c)")
      case True
      with \<open>i < MAX_ITERATIONS\<close> show ?thesis
        by (simp add: mandelbrot_loop.simps iterate_Suc iterate_0)
    next
      case False
      let ?n = "mandelbrot_loop sq_add escapes c (sq_add z c) (i + 1)"
      have eq: "mandelbrot_loop sq_add escapes c z i = ?n"
        using True False by (subst mandelbrot_loop.simps) simp
      from True have le: "i + 1 \<le> MAX_ITERATIONS" by simp
      from loop_bounds [OF le, of sq_add escapes c "sq_add z c"] have lo: "i + 1 \<le> ?n"
        by simp
      from "1.IH" [OF True refl False le] "1.prems"(2) eq
      have ih: "escapes (iterate sq_add (sq_add z c) c (Suc (nat (?n - (i + 1)))))"
        "\<And>k. 1 \<le> k \<Longrightarrow> k \<le> nat (?n - (i + 1)) \<Longrightarrow>
           \<not> escapes (iterate sq_add (sq_add z c) c k)"
        by simp_all
      from lo have n: "nat (?n - i) = Suc (nat (?n - (i + 1)))" by simp
      have a: "escapes (iterate sq_add z c (Suc (nat (?n - i))))"
        using ih(1) by (simp add: n iterate_Suc)
      have b: "\<not> escapes (iterate sq_add z c k)" if "1 \<le> k" "k \<le> nat (?n - i)" for k
      proof (cases k)
        case 0
        with that show ?thesis by simp
      next
        case (Suc j)
        show ?thesis
        proof (cases j)
          case 0
          with Suc False show ?thesis by (simp add: iterate_Suc iterate_0)
        next
          case (Suc j')
          with \<open>k = Suc j\<close> that n have "1 \<le> j" "j \<le> nat (?n - (i + 1))" by simp_all
          from ih(2) [OF this] \<open>k = Suc j\<close> show ?thesis by (simp add: iterate_Suc)
        qed
      qed
      from a b show ?thesis unfolding eq by blast
    qed
  qed
qed

lemma loop_no_escape:
  "i \<le> MAX_ITERATIONS \<Longrightarrow> mandelbrot_loop sq_add escapes c z i = MAX_ITERATIONS \<Longrightarrow>
   1 \<le> k \<Longrightarrow> k \<le> nat (MAX_ITERATIONS - i) \<Longrightarrow> \<not> escapes (iterate sq_add z c k)"
proof (induction sq_add escapes c z i arbitrary: k rule: mandelbrot_loop.induct)
  case (1 sq_add escapes c z i)
  from "1.prems"(3,4) have lt: "i < MAX_ITERATIONS" by simp
  from "1.prems"(2) lt have ne: "\<not> escapes (sq_add z c)"
    by (subst (asm) mandelbrot_loop.simps) (auto simp: Let_def split: if_splits)
  have eq: "mandelbrot_loop sq_add escapes c (sq_add z c) (i + 1) = MAX_ITERATIONS"
    using "1.prems"(2) lt ne by (subst (asm) mandelbrot_loop.simps) simp
  from lt have le: "i + 1 \<le> MAX_ITERATIONS" by simp
  show ?case
  proof (cases k)
    case 0
    with "1.prems" show ?thesis by simp
  next
    case (Suc j)
    show ?thesis
    proof (cases j)
      case 0
      with Suc ne show ?thesis by (simp add: iterate_Suc iterate_0)
    next
      case (Suc j')
      with \<open>k = Suc j\<close> "1.prems"(4) have "1 \<le> j" "j \<le> nat (MAX_ITERATIONS - (i + 1))"
        by simp_all
      from "1.IH" [OF lt refl ne le eq this] \<open>k = Suc j\<close> show ?thesis
        by (simp add: iterate_Suc)
    qed
  qed
qed

lemma loop_passes_count:
  "i \<le> MAX_ITERATIONS \<Longrightarrow>
   loop_passes sq_add escapes c z i =
     (if mandelbrot_loop sq_add escapes c z i < MAX_ITERATIONS
      then Suc (nat (mandelbrot_loop sq_add escapes c z i - i))
      else nat (MAX_ITERATIONS - i))"
proof (induction sq_add escapes c z i rule: mandelbrot_loop.induct)
  case (1 sq_add escapes c z i)
  show ?case
  proof (cases "i < MAX_ITERATIONS")
    case False
    with "1.prems" show ?thesis
      by (simp add: mandelbrot_loop.simps loop_passes.simps)
  next
    case True
    show ?thesis
    proof (cases "escapes (sq_add z c)")
      case True
      with \<open>i < MAX_ITERATIONS\<close> show ?thesis
        by (simp add: mandelbrot_loop.simps loop_passes.simps)
    next
      case False
      let ?n = "mandelbrot_loop sq_add escapes c (sq_add z c) (i + 1)"
      have eq: "mandelbrot_loop sq_add escapes c z i = ?n"
        using True False by (subst mandelbrot_loop.simps) simp
      have eq': "loop_passes sq_add escapes c z i
          = Suc (loop_passes sq_add escapes c (sq_add z c) (i + 1))"
        using True False by (subst loop_passes.simps) simp
      from True have le: "i + 1 \<le> MAX_ITERATIONS" by simp
      from loop_bounds [OF le, of sq_add escapes c "sq_add z c"] have lo: "i + 1 \<le> ?n"
        by simp
      from "1.IH" [OF True refl False le] lo True show ?thesis
        unfolding eq eq' by (auto simp: nat_diff_distrib)
    qed
  qed
qed

text \<open>
  Claim C10. For every input \<open>c\<close>, and whatever the arithmetic returns,
  \<^verbatim>\<open>mandelbrotIterations\<close> runs its loop body at most \<^verbatim>\<open>MAX_ITERATIONS\<close> times and returns
  \<open>n\<close> with \<open>0 \<le> n \<le> MAX_ITERATIONS\<close>. When \<open>n < MAX_ITERATIONS\<close>, the body ran \<open>n + 1\<close>
  times, the value of \<open>z\<close> computed in the pass with \<open>i = n\<close> passed the escape test and
  none before it did; \<open>n = MAX_ITERATIONS\<close> exactly when none of the 100 values did.
\<close>

theorem mandelbrot_iterations_bounded:
  "0 \<le> mandelbrotIterations sq_add escapes z0 c \<and>
   mandelbrotIterations sq_add escapes z0 c \<le> MAX_ITERATIONS \<and>
   loop_passes sq_add escapes c z0 0 \<le> nat MAX_ITERATIONS \<and>
   (mandelbrotIterations sq_add escapes z0 c < MAX_ITERATIONS \<longrightarrow>
      loop_passes sq_add escapes c z0 0 = Suc (nat (mandelbrotIterations sq_add escapes z0 c)) \<and>
      escapes (iterate sq_add z0 c (Suc (nat (mandelbrotIterations sq_add escapes z0 c)))) \<and>
      (\<forall>k. 1 \<le> k \<and> k \<le> nat (mandelbrotIterations sq_add escapes z0 c)
         \<longrightarrow> \<not> escapes (iterate sq_add z0 c k))) \<and>
   ((mandelbrotIterations sq_add escapes z0 c = MAX_ITERATIONS) =
      (\<forall>k. 1 \<le> k \<and> k \<le> nat MAX_ITERATIONS \<longrightarrow> \<not> escapes (iterate sq_add z0 c k)))"
proof -
  let ?n = "mandelbrot_loop sq_add escapes c z0 0"
  have z: "(0::int) \<le> MAX_ITERATIONS" by (simp add: MAX_ITERATIONS_def)
  from loop_bounds [OF z, of sq_add escapes c z0]
  have b: "0 \<le> ?n" "?n \<le> MAX_ITERATIONS" by simp_all
  have p: "loop_passes sq_add escapes c z0 0 =
     (if ?n < MAX_ITERATIONS then Suc (nat ?n) else nat MAX_ITERATIONS)"
    using loop_passes_count [OF z, of sq_add escapes c z0] by simp
  have e: "escapes (iterate sq_add z0 c (Suc (nat ?n))) \<and>
      (\<forall>k. 1 \<le> k \<and> k \<le> nat ?n \<longrightarrow> \<not> escapes (iterate sq_add z0 c k))"
    if "?n < MAX_ITERATIONS"
    using loop_escape [OF z that] by simp
  have f: "\<forall>k. 1 \<le> k \<and> k \<le> nat MAX_ITERATIONS \<longrightarrow> \<not> escapes (iterate sq_add z0 c k)"
    if "?n = MAX_ITERATIONS"
    using loop_no_escape [OF z that] by simp
  have g: "?n = MAX_ITERATIONS"
    if h: "\<forall>k. 1 \<le> k \<and> k \<le> nat MAX_ITERATIONS \<longrightarrow> \<not> escapes (iterate sq_add z0 c k)"
  proof (rule ccontr)
    assume "?n \<noteq> MAX_ITERATIONS"
    with b have lt: "?n < MAX_ITERATIONS" by simp
    from e [OF lt] have "escapes (iterate sq_add z0 c (Suc (nat ?n)))" by blast
    moreover from lt b have "1 \<le> Suc (nat ?n) \<and> Suc (nat ?n) \<le> nat MAX_ITERATIONS"
      by auto
    ultimately show False using h by blast
  qed
  have q: "loop_passes sq_add escapes c z0 0 \<le> nat MAX_ITERATIONS"
    using p b by auto
  have p': "loop_passes sq_add escapes c z0 0 = Suc (nat ?n)" if "?n < MAX_ITERATIONS"
    using p that by simp
  from b p' e f g q show ?thesis
    unfolding mandelbrotIterations_def by blast
qed

theorem mandelbrot_iterations_bounded_witness:
  "mandelbrotIterations exact_sq_add exact_escapes 0 1 = 2 \<and>
   (2 :: int) < MAX_ITERATIONS \<and>
   loop_passes exact_sq_add exact_escapes 1 0 0 = 3 \<and>
   exact_escapes (iterate exact_sq_add 0 1 3) \<and>
   \<not> exact_escapes (iterate exact_sq_add 0 1 2)"
proof -
  have v: "mandelbrotIterations exact_sq_add exact_escapes 0 1 = 2"
    by (simp add: mandelbrotIterations_def mandelbrot_loop.simps exact_sq_add_def
        exact_escapes_def MAX_ITERATIONS_def)
  have m: "(2 :: int) < MAX_ITERATIONS"
    by (simp add: MAX_ITERATIONS_def)
  from mandelbrot_iterations_bounded [of exact_sq_add exact_escapes 0 1] v m
  have "loop_passes exact_sq_add exact_escapes 1 0 0 = Suc (nat 2) \<and>
      exact_escapes (iterate exact_sq_add 0 1 (Suc (nat 2))) \<and>
      (\<forall>k. 1 \<le> k \<and> k \<le> nat 2 \<longrightarrow> \<not> exact_escapes (iterate exact_sq_add 0 1 k))"
    by simp
  then have "loop_passes exact_sq_add exact_escapes 1 0 0 = 3 \<and>
      exact_escapes (iterate exact_sq_add 0 1 3) \<and>
      \<not> exact_escapes (iterate exact_sq_add 0 1 2)"
    by (simp add: eval_nat_numeral)
  with v m show ?thesis by blast
qed

end
